theory Spec2Isabelle
  imports Main "HOL-Library.Word"
begin

unbundle bit_operations_syntax

section \<open>Machine types\<close>

type_synonym u8 = "8 word"
type_synonym u32 = "32 word"

section \<open>Word rotation and the quarter-round\<close>

text \<open>
  \<^verbatim>\<open>static uint32_t rotl(uint32_t value, int shift) {
       return (value << shift) | (value >> (32 - shift)); }\<close>
  Both shifts are on \<^verbatim>\<open>uint32_t\<close>: bits pushed beyond bit 31 are lost. Every caller
  passes one of the literals 7, 9, 13, 18, so the shift amount is a natural number.
\<close>

definition rotl :: "u32 \<Rightarrow> nat \<Rightarrow> u32" where
  "rotl v shift = (push_bit shift v) OR (drop_bit (32 - shift) v)"

text \<open>
  \<^verbatim>\<open>s20_quarterround(uint32_t *y0, uint32_t *y1, uint32_t *y2, uint32_t *y3)\<close> reads and
  writes through four pointers. Every call site passes the addresses of four elements of
  one 16-word array, so a pointer is modelled as an index into that array and each of the
  four assignments is an update of the array that the next assignment reads.
\<close>

definition s20_quarterround :: "u32 list \<Rightarrow> nat \<Rightarrow> nat \<Rightarrow> nat \<Rightarrow> nat \<Rightarrow> u32 list" where
  "s20_quarterround y p0 p1 p2 p3 =
     (let y = y[p1 := (y ! p1) XOR rotl (y ! p0 + y ! p3) 7];
          y = y[p2 := (y ! p2) XOR rotl (y ! p1 + y ! p0) 9];
          y = y[p3 := (y ! p3) XOR rotl (y ! p2 + y ! p1) 13];
          y = y[p0 := (y ! p0) XOR rotl (y ! p3 + y ! p2) 18]
      in y)"

section \<open>Row-round, column-round, double-round\<close>

definition s20_rowround :: "u32 list \<Rightarrow> u32 list" where
  "s20_rowround y =
     (let y = s20_quarterround y 0 1 2 3;
          y = s20_quarterround y 5 6 7 4;
          y = s20_quarterround y 10 11 8 9;
          y = s20_quarterround y 15 12 13 14
      in y)"

definition s20_columnround :: "u32 list \<Rightarrow> u32 list" where
  "s20_columnround x =
     (let x = s20_quarterround x 0 4 8 12;
          x = s20_quarterround x 5 9 13 1;
          x = s20_quarterround x 10 14 2 6;
          x = s20_quarterround x 15 3 7 11
      in x)"

definition s20_doubleround :: "u32 list \<Rightarrow> u32 list" where
  "s20_doubleround x = (let x = s20_columnround x; x = s20_rowround x in x)"

section \<open>Little-endian conversion\<close>

text \<open>
  \<^verbatim>\<open>s20_littleendian(uint8_t *b)\<close> returns
  \<^verbatim>\<open>b[0] + ((uint_fast16_t) b[1] << 8) + ((uint_fast32_t) b[2] << 16) + ((uint_fast32_t) b[3] << 24)\<close>
  converted to \<^verbatim>\<open>uint32_t\<close>. The intermediate types are at least as wide as
  \<^verbatim>\<open>int\<close> after promotion and the result is reduced modulo \<open>2 ^ 32\<close> by the return type,
  so the sum is taken on 32-bit words. The pointer \<^verbatim>\<open>b\<close> is a byte array together with
  an offset into it.
\<close>

definition s20_littleendian :: "u8 list \<Rightarrow> nat \<Rightarrow> u32" where
  "s20_littleendian b off =
     ucast (b ! off) +
     push_bit 8 (ucast (b ! (off + 1))) +
     push_bit 16 (ucast (b ! (off + 2))) +
     push_bit 24 (ucast (b ! (off + 3)))"

text \<open>
  \<^verbatim>\<open>s20_rev_littleendian(uint8_t *b, uint32_t w)\<close>: each assignment truncates the shifted
  word to \<^verbatim>\<open>uint8_t\<close>.
\<close>

definition s20_rev_littleendian :: "u8 list \<Rightarrow> nat \<Rightarrow> u32 \<Rightarrow> u8 list" where
  "s20_rev_littleendian b off w =
     (let b = b[off := ucast w];
          b = b[off + 1 := ucast (drop_bit 8 w)];
          b = b[off + 2 := ucast (drop_bit 16 w)];
          b = b[off + 3 := ucast (drop_bit 24 w)]
      in b)"

section \<open>The core hash\<close>

text \<open>
  \<^verbatim>\<open>s20_hash(uint8_t seq[64])\<close>. The first loop fills both local arrays \<^verbatim>\<open>x\<close> and
  \<^verbatim>\<open>z\<close> with the sixteen decoded words; the second runs \<^verbatim>\<open>s20_doubleround(z)\<close> ten
  times; the third adds \<^verbatim>\<open>x[i]\<close> into \<^verbatim>\<open>z[i]\<close> and stores the sum back into
  \<^verbatim>\<open>seq\<close> at byte offset \<^verbatim>\<open>4 * i\<close>.
\<close>

definition s20_hash_decode :: "u8 list \<Rightarrow> u32 list" where
  "s20_hash_decode seq = map (\<lambda>i. s20_littleendian seq (4 * i)) [0..<16]"

definition s20_hash_feed :: "u32 list \<Rightarrow> nat \<Rightarrow> u32 list \<times> u8 list \<Rightarrow> u32 list \<times> u8 list" where
  "s20_hash_feed x i = (\<lambda>(z, seq).
     (let z = z[i := z ! i + x ! i];
          seq = s20_rev_littleendian seq (4 * i) (z ! i)
      in (z, seq)))"

definition s20_hash :: "u8 list \<Rightarrow> u8 list" where
  "s20_hash seq =
     (let x = s20_hash_decode seq;
          z = x;
          z = (s20_doubleround ^^ 10) z
      in snd (fold (s20_hash_feed x) [0..<16] (z, seq)))"

section \<open>Block expansion\<close>

text \<open>The table \<^verbatim>\<open>o[4][4]\<close>, the four pieces of the string "expand 32-byte k".\<close>

definition sigma :: "u8 list list" where
  "sigma = [map of_char ''expa'', map of_char ''nd 3'', map of_char ''2-by'', map of_char ''te k'']"

text \<open>
  \<^verbatim>\<open>s20_expand32(uint8_t *k, uint8_t n[16], uint8_t keystream[64])\<close>. The outer loop of
  the first nest runs for \<^verbatim>\<open>i = 0, 20, 40, 60\<close>. \<^verbatim>\<open>k\<close> and \<^verbatim>\<open>n\<close> are only read;
  \<^verbatim>\<open>keystream\<close> is written and then hashed in place.
\<close>

definition s20_expand32 :: "u8 list \<Rightarrow> u8 list \<Rightarrow> u8 list \<Rightarrow> u8 list" where
  "s20_expand32 k n keystream =
     (let keystream =
            fold (\<lambda>i ks. fold (\<lambda>j ks. ks[i + j := sigma ! (i div 20) ! j]) [0..<4] ks)
                 [0, 20, 40, 60] keystream;
          keystream =
            fold (\<lambda>i ks. ks[4 + i := k ! i, 44 + i := k ! (i + 16), 24 + i := n ! i])
                 [0..<16] keystream
      in s20_hash keystream)"

section \<open>The stream driver\<close>

text \<open>
  The three arrays that the caller hands to \<^verbatim>\<open>s20_crypt\<close> by pointer. They are modelled
  as three separate objects: the caller's buffer does not overlap the key or the nonce.
\<close>

record s20_mem =
  key :: "u8 list"
  nonce :: "u8 list"
  buf :: "u8 list"

text \<open>
  The body of \<^verbatim>\<open>for (i = 0; i < buflen; ++i)\<close> at index \<^verbatim>\<open>i\<close>. The state is the
  caller's memory and the two local arrays \<^verbatim>\<open>n\<close> and \<^verbatim>\<open>keystream\<close>. The index
  \<^verbatim>\<open>i\<close> and the stream index \<^verbatim>\<open>si\<close> are \<^verbatim>\<open>uint32_t\<close>, so \<^verbatim>\<open>si + i\<close> wraps
  modulo \<open>2 ^ 32\<close>.
\<close>

definition s20_crypt_body ::
  "u32 \<Rightarrow> u32 \<Rightarrow> s20_mem \<times> u8 list \<times> u8 list \<Rightarrow> s20_mem \<times> u8 list \<times> u8 list" where
  "s20_crypt_body si i = (\<lambda>(m, n, keystream).
     (let (n, keystream) =
            (if i mod 64 = 0 then
               (let n = s20_rev_littleendian n 8 (i div 64);
                    keystream = s20_expand32 (key m) n keystream
                in (n, keystream))
             else (n, keystream));
          m = m\<lparr>buf := (buf m)[unat i := (buf m ! unat i) XOR (keystream ! unat ((si + i) mod 64))]\<rparr>
      in (m, n, keystream)))"

text \<open>
  The loop itself, from index \<^verbatim>\<open>i\<close> on. The guard \<^verbatim>\<open>i < buflen\<close> keeps \<^verbatim>\<open>++i\<close> from
  wrapping, which is what makes the loop end.
\<close>

function s20_crypt_loop ::
  "u32 \<Rightarrow> u32 \<Rightarrow> u32 \<Rightarrow> s20_mem \<times> u8 list \<times> u8 list \<Rightarrow> s20_mem \<times> u8 list \<times> u8 list" where
  "s20_crypt_loop si buflen i s =
     (if i < buflen then s20_crypt_loop si buflen (i + 1) (s20_crypt_body si i s) else s)"
  by pat_completeness auto
termination
proof (relation "measure (\<lambda>(si, buflen, i, s). unat buflen - unat i)")
  show "wf (measure (\<lambda>(si, buflen, i, s). unat buflen - unat i))"
    by simp
next
  fix si buflen i :: u32 and s :: "s20_mem \<times> u8 list \<times> u8 list"
  assume lt: "i < buflen"
  then have lt': "unat i < unat buflen"
    by (simp add: word_less_nat_alt)
  have "unat buflen < 2 ^ 32"
    using unsigned_less [of buflen] by simp
  with lt' have "unat (i + 1) = unat i + 1"
    by (simp add: unat_word_ariths)
  with lt' show
    "((si, buflen, i + 1, s20_crypt_body si i s), (si, buflen, i, s))
       \<in> measure (\<lambda>(si, buflen, i, s). unat buflen - unat i)"
    by simp
qed

declare s20_crypt_loop.simps [simp del]

text \<open>
  \<^verbatim>\<open>s20_crypt(key, nonce, si, buf, buflen)\<close>. \<^verbatim>\<open>n\<close> starts as sixteen zero bytes and
  receives the nonce in its first eight. \<^verbatim>\<open>keystream\<close> is declared without an
  initialiser; it is first read after \<^verbatim>\<open>s20_expand32\<close> has written all of its 64 bytes
  (iteration \<^verbatim>\<open>i = 0\<close>), so the model starts it as 64 zero bytes.
\<close>

definition s20_crypt :: "s20_mem \<Rightarrow> u32 \<Rightarrow> u32 \<Rightarrow> s20_mem" where
  "s20_crypt m si buflen =
     (let keystream = replicate 64 0;
          n = replicate 16 0;
          n = fold (\<lambda>i n. n[i := nonce m ! i]) [0..<8] n
      in fst (s20_crypt_loop si buflen 0 (m, n, keystream)))"

section \<open>The algorithm in the words of its description\<close>

text \<open>
  The definitions of this section are not translated from the C source. They write down
  the cipher the way its description does, on values instead of memory, and are what
  the functions above are compared with.
\<close>

text \<open>Addition modulo \<open>2 ^ 32\<close>, on the unsigned values of the two words.\<close>

definition add32_spec :: "u32 \<Rightarrow> u32 \<Rightarrow> u32" where
  "add32_spec a b = word_of_nat ((unat a + unat b) mod 2 ^ 32)"

text \<open>Left circular rotation of a 32-bit word.\<close>

definition rotl_spec :: "u32 \<Rightarrow> nat \<Rightarrow> u32" where
  "rotl_spec v s = word_rotl s v"

text \<open>The quarter-round on four words, each line using the words the earlier lines produced.\<close>

definition quarterround_spec :: "u32 \<times> u32 \<times> u32 \<times> u32 \<Rightarrow> u32 \<times> u32 \<times> u32 \<times> u32" where
  "quarterround_spec = (\<lambda>(y0, y1, y2, y3).
     (let y1 = y1 XOR rotl_spec (add32_spec y0 y3) 7;
          y2 = y2 XOR rotl_spec (add32_spec y1 y0) 9;
          y3 = y3 XOR rotl_spec (add32_spec y2 y1) 13;
          y0 = y0 XOR rotl_spec (add32_spec y3 y2) 18
      in (y0, y1, y2, y3)))"

text \<open>The quarter-round applied to the words of a state at an index 4-tuple.\<close>

definition quarterround_at :: "u32 list \<Rightarrow> nat \<times> nat \<times> nat \<times> nat \<Rightarrow> u32 list" where
  "quarterround_at y = (\<lambda>(a, b, c, d).
     (case quarterround_spec (y ! a, y ! b, y ! c, y ! d) of
        (za, zb, zc, zd) \<Rightarrow> y[a := za, b := zb, c := zc, d := zd]))"

definition rowround_spec :: "u32 list \<Rightarrow> u32 list" where
  "rowround_spec y =
     foldl quarterround_at y [(0, 1, 2, 3), (5, 6, 7, 4), (10, 11, 8, 9), (15, 12, 13, 14)]"

definition columnround_spec :: "u32 list \<Rightarrow> u32 list" where
  "columnround_spec x =
     foldl quarterround_at x [(0, 4, 8, 12), (5, 9, 13, 1), (10, 14, 2, 6), (15, 3, 7, 11)]"

definition doubleround_spec :: "u32 list \<Rightarrow> u32 list" where
  "doubleround_spec x = rowround_spec (columnround_spec x)"

text \<open>
  A byte sequence read as a little-endian number, and the four little-endian bytes of a
  32-bit word.
\<close>

definition le_word_spec :: "u8 list \<Rightarrow> u32" where
  "le_word_spec bs = word_of_nat (foldr (\<lambda>b acc. unat b + 256 * acc) bs 0)"

definition le_bytes_spec :: "u32 \<Rightarrow> u8 list" where
  "le_bytes_spec w = map (\<lambda>k. word_of_nat (unat w div 256 ^ k mod 256)) [0..<4]"

text \<open>
  The core hash: sixteen little-endian words, ten double-rounds on a working copy, the
  original words added to the worked ones modulo \<open>2 ^ 32\<close>, the sums written out as
  little-endian bytes.
\<close>

definition core_hash_spec :: "u8 list \<Rightarrow> u8 list" where
  "core_hash_spec seq =
     (let x = map (\<lambda>i. le_word_spec (take 4 (drop (4 * i) seq))) [0..<16];
          z = (doubleround_spec ^^ 10) x
      in concat (map le_bytes_spec (map2 add32_spec z x)))"

text \<open>
  The 64-byte block that block expansion hands to the core hash: the four pieces of
  "expand 32-byte k" around the two halves of the key and the 16-byte input field.
\<close>

definition expand32_layout_spec :: "u8 list \<Rightarrow> u8 list \<Rightarrow> u8 list" where
  "expand32_layout_spec k n =
     map of_char ''expa'' @ take 16 k @ map of_char ''nd 3'' @ n @
     map of_char ''2-by'' @ take 16 (drop 16 k) @ map of_char ''te k''"

text \<open>
  The stream driver as a function of the buffer positions: the byte at position \<open>i\<close> of
  the key stream of a call is byte \<open>(si + i) mod 64\<close> of the block for the input field
  made of the nonce, the counter \<open>i div 64\<close> in four little-endian bytes, and four zero
  bytes; the first \<open>buflen\<close> bytes of the buffer are xored with it.
\<close>

definition counter_field_spec :: "u8 list \<Rightarrow> nat \<Rightarrow> u8 list" where
  "counter_field_spec v c = v @ le_bytes_spec (word_of_nat c) @ [0, 0, 0, 0]"

definition keystream_byte_spec :: "u8 list \<Rightarrow> u8 list \<Rightarrow> u32 \<Rightarrow> nat \<Rightarrow> u8" where
  "keystream_byte_spec k v si i =
     s20_hash (expand32_layout_spec k (counter_field_spec v (i div 64))) ! ((unat si + i) mod 64)"

definition crypt_spec :: "s20_mem \<Rightarrow> u32 \<Rightarrow> u32 \<Rightarrow> s20_mem" where
  "crypt_spec m si buflen =
     m\<lparr>buf := map (\<lambda>i. if i < unat buflen
                         then buf m ! i XOR keystream_byte_spec (key m) (nonce m) si i
                         else buf m ! i) [0..<length (buf m)]\<rparr>"

section \<open>A published test vector\<close>

text \<open>
  Set 1, vector 0 of the eSTREAM test vectors for Salsa20/20 with a 256-bit key: the key
  is the byte \<open>0x80\<close> followed by 31 zero bytes, the nonce is eight zero bytes, and the
  vector lists the first 64 bytes of the key stream (block counter 0).
\<close>

definition kat_key :: "u8 list" where
  "kat_key = [0x80, 0, 0, 0, 0, 0, 0, 0, 0, 0, 0, 0, 0, 0, 0, 0,
              0, 0, 0, 0, 0, 0, 0, 0, 0, 0, 0, 0, 0, 0, 0, 0]"

definition kat_nonce :: "u8 list" where
  "kat_nonce = [0, 0, 0, 0, 0, 0, 0, 0]"

definition kat_keystream :: "u8 list" where
  "kat_keystream =
    [0xE3, 0xBE, 0x8F, 0xDD, 0x8B, 0xEC, 0xA2, 0xE3, 0xEA, 0x8E, 0xF9, 0x47, 0x5B, 0x29, 0xA6, 0xE7,
     0x00, 0x39, 0x51, 0xE1, 0x09, 0x7A, 0x5C, 0x38, 0xD2, 0x3B, 0x7A, 0x5F, 0xAD, 0x9F, 0x68, 0x44,
     0xB2, 0x2C, 0x97, 0x55, 0x9E, 0x27, 0x23, 0xC7, 0xCB, 0xBD, 0x3F, 0xE4, 0xFC, 0x8D, 0x9A, 0x07,
     0x44, 0x65, 0x2A, 0x83, 0xE7, 0x2A, 0x9C, 0x46, 0x18, 0x76, 0xAF, 0x4D, 0x7E, 0xF1, 0xA1, 0x17]"

section \<open>The quarter-round and the rounds\<close>

lemma rotl_word_rotl: "s \<le> 32 \<Longrightarrow> rotl v s = word_rotl s v"
proof (rule bit_word_eqI)
  fix n assume s: "s \<le> 32" and n: "n < LENGTH(32)"
  have n32: "n < 32" using n by simp
  show "bit (rotl v s) n = bit (word_rotl s v) n"
  proof (cases "s = 32")
    case True
    with n32 show ?thesis by (simp add: rotl_def bit_simps)
  next
    case False
    with s have s': "s < 32" by simp
    show ?thesis
    proof (cases "s \<le> n")
      case True
      with n32 s' have idx: "(n + (32 - s)) mod 32 = n - s"
        by (simp add: mod_if)
      have "\<not> bit v (32 - s + n)"
        using True s' by (auto dest: bit_imp_le_length)
      then have l: "bit (rotl v s) n = bit v (n - s)"
        using True n32 by (simp add: rotl_def bit_simps)
      have r: "bit (word_rotl s v) n = bit v (n - s)"
        using n32 s' idx by (simp add: bit_simps)
      from l r show ?thesis by simp
    next
      case False
      with n32 s' have idx: "(n + (32 - s)) mod 32 = 32 - s + n" by simp
      have l: "bit (rotl v s) n = bit v (32 - s + n)"
        using False n32 by (simp add: rotl_def bit_simps)
      have r: "bit (word_rotl s v) n = bit v (32 - s + n)"
        using n32 s' idx by (simp add: bit_simps)
      from l r show ?thesis by simp
    qed
  qed
qed

lemma add32_spec_eq: "add32_spec a b = a + b"
proof -
  have "(unat a + unat b) mod 2 ^ 32 = unat (a + b)"
    by (simp add: unat_word_ariths)
  then have "add32_spec a b = word_of_nat (unat (a + b))"
    by (simp only: add32_spec_def)
  then show ?thesis by simp
qed

lemma rotl_spec_eq: "s \<le> 32 \<Longrightarrow> rotl_spec v s = rotl v s"
  by (simp add: rotl_spec_def rotl_word_rotl)

lemma length_s20_quarterround [simp]: "length (s20_quarterround y p0 p1 p2 p3) = length y"
  by (simp add: s20_quarterround_def Let_def)

lemma s20_quarterround_at:
  assumes "distinct [p0, p1, p2, p3]"
    and "p0 < length y" "p1 < length y" "p2 < length y" "p3 < length y"
  shows "s20_quarterround y p0 p1 p2 p3 = quarterround_at y (p0, p1, p2, p3)"
proof -
  let ?z1 = "y ! p1 XOR rotl (y ! p0 + y ! p3) 7"
  let ?z2 = "y ! p2 XOR rotl (?z1 + y ! p0) 9"
  let ?z3 = "y ! p3 XOR rotl (?z2 + ?z1) 13"
  let ?z0 = "y ! p0 XOR rotl (?z3 + ?z2) 18"
  have "s20_quarterround y p0 p1 p2 p3 = y[p1 := ?z1, p2 := ?z2, p3 := ?z3, p0 := ?z0]"
    using assms by (simp add: s20_quarterround_def Let_def)
  also have "\<dots> = y[p0 := ?z0, p1 := ?z1, p2 := ?z2, p3 := ?z3]"
    using assms by (simp add: list_update_swap [of p0])
  also have "\<dots> = quarterround_at y (p0, p1, p2, p3)"
    by (simp add: quarterround_at_def quarterround_spec_def Let_def add32_spec_eq rotl_spec_eq)
  finally show ?thesis .
qed

lemma length_quarterround_at [simp]: "length (quarterround_at y t) = length y"
  by (cases t) (simp add: quarterround_at_def split: prod.splits)

lemma s20_rowround_spec: "length y = 16 \<Longrightarrow> s20_rowround y = rowround_spec y"
  by (simp add: s20_rowround_def rowround_spec_def Let_def s20_quarterround_at)

lemma s20_columnround_spec: "length x = 16 \<Longrightarrow> s20_columnround x = columnround_spec x"
  by (simp add: s20_columnround_def columnround_spec_def Let_def s20_quarterround_at)

lemma length_rowround_spec [simp]: "length (rowround_spec y) = length y"
  by (simp add: rowround_spec_def)

lemma length_columnround_spec [simp]: "length (columnround_spec y) = length y"
  by (simp add: columnround_spec_def)

lemma s20_doubleround_spec: "length x = 16 \<Longrightarrow> s20_doubleround x = doubleround_spec x"
  by (simp add: s20_doubleround_def doubleround_spec_def Let_def s20_rowround_spec s20_columnround_spec)

text \<open>
  C3. Called on four distinct words of an array, \<^verbatim>\<open>s20_quarterround\<close> leaves in their
  places the four words of the quarter-round of the description: \<open>y1\<close> is xored with the
  rotation by 7 of \<open>y0 + y3\<close>, then \<open>y2\<close> with the rotation by 9 of the new \<open>y1\<close> plus
  \<open>y0\<close>, then \<open>y3\<close> with the rotation by 13 of the new \<open>y2\<close> plus the new \<open>y1\<close>, then
  \<open>y0\<close> with the rotation by 18 of the new \<open>y3\<close> plus the new \<open>y2\<close>; the sums are taken
  modulo \<open>2 ^ 32\<close>, the rotations are left circular rotations of 32-bit words, and no other
  element of the array changes.
\<close>

theorem s20_quarterround_order:
  assumes "distinct [p0, p1, p2, p3]"
    and "p0 < length y" "p1 < length y" "p2 < length y" "p3 < length y"
  shows "s20_quarterround y p0 p1 p2 p3 =
     (case quarterround_spec (y ! p0, y ! p1, y ! p2, y ! p3) of
        (z0, z1, z2, z3) \<Rightarrow> y[p0 := z0, p1 := z1, p2 := z2, p3 := z3])"
  using s20_quarterround_at [OF assms] by (simp add: quarterround_at_def)

lemma s20_quarterround_example:
  "s20_quarterround [0x12345678, 0xDEADBEEF, 0xCAFEBABE, 0x0BADF00D] 0 1 2 3 =
     [209848349, 797899873, 1281034301, 1262370672]"
  by (simp add: s20_quarterround_def rotl_def Let_def cong: let_weak_cong)

theorem s20_quarterround_order_witness:
  "distinct [0, 1, 2, 3 :: nat] \<and>
   3 < length [0x12345678, 0xDEADBEEF, 0xCAFEBABE, 0x0BADF00D :: u32] \<and>
   (case quarterround_spec (0x12345678, 0xDEADBEEF, 0xCAFEBABE, 0x0BADF00D) of
      (z0, z1, z2, z3) \<Rightarrow> [z0, z1, z2, z3]) =
     [209848349, 797899873, 1281034301, 1262370672]"
proof -
  let ?y = "[0x12345678, 0xDEADBEEF, 0xCAFEBABE, 0x0BADF00D] :: u32 list"
  have d: "distinct [0, 1, 2, 3 :: nat]" and l: "0 < length ?y" "1 < length ?y" "2 < length ?y" "3 < length ?y"
    by simp_all
  have "(case quarterround_spec (?y ! 0, ?y ! 1, ?y ! 2, ?y ! 3) of
          (z0, z1, z2, z3) \<Rightarrow> ?y[0 := z0, 1 := z1, 2 := z2, 3 := z3]) =
        [209848349, 797899873, 1281034301, 1262370672]"
    using s20_quarterround_order [OF d l] s20_quarterround_example by (simp only:)
  then show ?thesis
    by (simp split: prod.splits)
qed

lemma s20_doubleround_step0:
  "s20_doubleround
     [1634760805, 128, 0, 0, 0, 857760878, 0, 0, 0, 0, 2036477234, 0, 0, 0, 0, 1797285236] =
     [2009579003, 3154187341, 1047733325, 388097403, 2478339262, 1832294968, 1527410330,
      3580292488, 1826439902, 460018671, 3774188779, 3134658539, 4004721450, 1749430107,
      2638623715, 214684503]"
  by (simp add: s20_doubleround_def s20_columnround_def s20_rowround_def s20_quarterround_def
      rotl_def Let_def cong: let_weak_cong)

text \<open>
  C4. On a state of sixteen words, \<^verbatim>\<open>s20_rowround\<close> is the quarter-round at the index
  tuples (0,1,2,3), (5,6,7,4), (10,11,8,9), (15,12,13,14) in this order,
  \<^verbatim>\<open>s20_columnround\<close> is the quarter-round at (0,4,8,12), (5,9,13,1), (10,14,2,6),
  (15,3,7,11) in this order, and \<^verbatim>\<open>s20_doubleround\<close> is the column-round followed by the
  row-round, each returning the updated state.
\<close>

theorem s20_rounds_wiring:
  assumes "length x = 16"
  shows "s20_rowround x = rowround_spec x \<and> s20_columnround x = columnround_spec x \<and>
    s20_doubleround x = rowround_spec (columnround_spec x)"
  using assms s20_doubleround_spec [of x]
  by (simp add: s20_rowround_spec s20_columnround_spec doubleround_spec_def)

theorem s20_rounds_wiring_witness:
  "length [1634760805, 128, 0, 0, 0, 857760878, 0, 0, 0, 0, 2036477234, 0, 0, 0, 0, 1797285236 :: u32] = 16 \<and>
   rowround_spec (columnround_spec
     [1634760805, 128, 0, 0, 0, 857760878, 0, 0, 0, 0, 2036477234, 0, 0, 0, 0, 1797285236]) =
     [2009579003, 3154187341, 1047733325, 388097403, 2478339262, 1832294968, 1527410330,
      3580292488, 1826439902, 460018671, 3774188779, 3134658539, 4004721450, 1749430107,
      2638623715, 214684503]"
proof -
  have len: "length [1634760805, 128, 0, 0, 0, 857760878, 0, 0, 0, 0, 2036477234, 0, 0, 0, 0, 1797285236 :: u32] = 16"
    by simp
  from s20_rounds_wiring [OF len] s20_doubleround_step0 len show ?thesis
    by (simp only:)
qed

section \<open>Little-endian conversion round trip\<close>

lemma le_roundtrip_word:
  "(ucast (ucast w :: u8) :: u32) +
     push_bit 8 (ucast (ucast (drop_bit 8 w) :: u8)) +
     push_bit 16 (ucast (ucast (drop_bit 16 w) :: u8)) +
     push_bit 24 (ucast (ucast (drop_bit 24 w) :: u8)) = w" (is "?a + ?b + ?c + ?d = w")
proof -
  have ab: "?a + ?b = ?a OR ?b"
    by (rule disjunctive_add) (auto simp add: bit_simps)
  have abc: "(?a OR ?b) + ?c = (?a OR ?b) OR ?c"
    by (rule disjunctive_add) (auto simp add: bit_simps)
  have abcd: "((?a OR ?b) OR ?c) + ?d = ((?a OR ?b) OR ?c) OR ?d"
    by (rule disjunctive_add) (auto simp add: bit_simps)
  have "((?a OR ?b) OR ?c) OR ?d = w"
  proof (rule bit_word_eqI)
    fix n assume n: "n < LENGTH(32)"
    consider "n < 8" | "8 \<le> n" "n < 16" | "16 \<le> n" "n < 24" | "24 \<le> n"
      by linarith
    then show "bit (((?a OR ?b) OR ?c) OR ?d) n = bit w n"
      using n by cases (auto simp add: bit_simps)
  qed
  with ab abc abcd show ?thesis by simp
qed

text \<open>
  C10. Storing a 32-bit word with \<^verbatim>\<open>s20_rev_littleendian\<close> at an offset that leaves four
  bytes of room and reading it back from the same offset with \<^verbatim>\<open>s20_littleendian\<close>
  gives the word again.
\<close>

theorem s20_littleendian_rev_roundtrip:
  "off + 4 \<le> length b \<Longrightarrow> s20_littleendian (s20_rev_littleendian b off w) off = w"
  by (simp add: s20_littleendian_def s20_rev_littleendian_def Let_def le_roundtrip_word)

theorem s20_littleendian_rev_roundtrip_witness:
  "(0::nat) + 4 \<le> length [0, 0, 0, 0 :: u8] \<and>
   s20_littleendian (s20_rev_littleendian [0, 0, 0, 0] 0 0xDEADBEEF) 0 = 0xDEADBEEF"
  using s20_littleendian_rev_roundtrip [of 0 "[0, 0, 0, 0]" "0xDEADBEEF"] by simp

section \<open>The core hash\<close>

lemma take4_drop:
  "off + 4 \<le> length seq \<Longrightarrow>
     take 4 (drop off seq) = [seq ! off, seq ! (off + 1), seq ! (off + 2), seq ! (off + 3)]"
  by (rule nth_equalityI) (auto simp add: less_Suc_eq numeral_eq_Suc)

lemma le_word_spec4:
  "le_word_spec [a, b, c, d] =
     ucast a + push_bit 8 (ucast b) + push_bit 16 (ucast c) + push_bit 24 (ucast d)"
  by (simp add: le_word_spec_def push_bit_eq_mult algebra_simps)

lemma s20_littleendian_spec:
  "off + 4 \<le> length seq \<Longrightarrow> s20_littleendian seq off = le_word_spec (take 4 (drop off seq))"
  by (simp add: take4_drop le_word_spec4 s20_littleendian_def)

lemma byte_of_nat_mod: "(word_of_nat (n mod 256) :: u8) = word_of_nat n"
  by (simp add: word_of_nat_eq_iff take_bit_eq_mod)

lemma ucast_drop_bit_byte: "(ucast (drop_bit k (w :: u32)) :: u8) = word_of_nat (unat w div 2 ^ k mod 256)"
proof -
  have "unat (drop_bit k w) = drop_bit k (unat w)"
    by (rule unat_drop_bit_eq)
  also have "\<dots> = unat w div 2 ^ k"
    by (rule drop_bit_eq_div)
  finally have "unat (drop_bit k w) = unat w div 2 ^ k" .
  then have "(word_of_nat (unat w div 2 ^ k) :: u8) = word_of_nat (unat (drop_bit k w))"
    by (simp only:)
  also have "\<dots> = ucast (drop_bit k w)"
    by (rule of_nat_unat)
  finally show ?thesis by (simp only: byte_of_nat_mod)
qed

lemma le_bytes_spec4:
  "le_bytes_spec w = [ucast w, ucast (drop_bit 8 w), ucast (drop_bit 16 w), ucast (drop_bit 24 w)]"
proof -
  have "[0..<4] = [0, 1, 2, 3]"
    by (simp add: upt_rec)
  moreover have "(ucast w :: u8) = word_of_nat (unat w div 256 ^ 0 mod 256)"
    using ucast_drop_bit_byte [of 0 w] by simp
  moreover have "(ucast (drop_bit 8 w) :: u8) = word_of_nat (unat w div 256 ^ 1 mod 256)"
    using ucast_drop_bit_byte [of 8 w] by simp
  moreover have "(ucast (drop_bit 16 w) :: u8) = word_of_nat (unat w div 256 ^ 2 mod 256)"
    using ucast_drop_bit_byte [of 16 w] by simp
  moreover have "(ucast (drop_bit 24 w) :: u8) = word_of_nat (unat w div 256 ^ 3 mod 256)"
    using ucast_drop_bit_byte [of 24 w] by simp
  ultimately show ?thesis
    by (simp add: le_bytes_spec_def)
qed

lemma length_s20_rev_littleendian [simp]: "length (s20_rev_littleendian b off w) = length b"
  by (simp add: s20_rev_littleendian_def Let_def)

lemma s20_rev_littleendian_spec:
  assumes "off + 4 \<le> length b"
  shows "s20_rev_littleendian b off w = take off b @ le_bytes_spec w @ drop (off + 4) b"
proof (rule nth_equalityI)
  show "length (s20_rev_littleendian b off w) = length (take off b @ le_bytes_spec w @ drop (off + 4) b)"
    using assms by (simp add: le_bytes_spec4)
next
  fix i assume "i < length (s20_rev_littleendian b off w)"
  with assms have i: "i < length b" by simp
  consider "i < off" | "i = off" | "i = off + 1" | "i = off + 2" | "i = off + 3" | "off + 4 \<le> i"
    by linarith
  then show "s20_rev_littleendian b off w ! i = (take off b @ le_bytes_spec w @ drop (off + 4) b) ! i"
  proof cases
    case 6
    then have "i - off - 4 + (off + 4) = i" by simp
    with 6 i assms show ?thesis
      by (simp add: s20_rev_littleendian_def Let_def le_bytes_spec4 nth_append)
  qed (use i assms in \<open>simp_all add: s20_rev_littleendian_def Let_def le_bytes_spec4 nth_append\<close>)
qed


lemma length_le_bytes_spec [simp]: "length (le_bytes_spec w) = 4"
  by (simp add: le_bytes_spec_def)

lemma length_concat_le_bytes [simp]: "length (concat (map le_bytes_spec ws)) = 4 * length ws"
  by (induction ws) simp_all

lemma s20_hash_decode_spec:
  "length seq = 64 \<Longrightarrow>
     s20_hash_decode seq = map (\<lambda>i. le_word_spec (take 4 (drop (4 * i) seq))) [0..<16]"
  by (simp add: s20_hash_decode_def s20_littleendian_spec)

lemma s20_hash_feed_fold:
  assumes x: "length x = 16" and z: "length z = 16" and seq: "length seq = 64"
  shows "k \<le> 16 \<Longrightarrow>
    fold (s20_hash_feed x) [0..<k] (z, seq) =
      (map2 (+) (take k z) (take k x) @ drop k z,
       concat (map le_bytes_spec (map2 (+) (take k z) (take k x))) @ drop (4 * k) seq)"
proof (induction k)
  case 0
  show ?case by simp
next
  case (Suc k)
  define w where "w = map2 (+) (take k z) (take k x)"
  define v where "v = z ! k + x ! k"
  define c where "c = concat (map le_bytes_spec w)"
  from Suc.prems have k: "k < 16" by simp
  have lw: "length w = k"
    using k x z by (simp add: w_def)
  have lc: "length c = 4 * k"
    using lw by (simp add: c_def)
  have tz: "take (Suc k) z = take k z @ [z ! k]" and tx: "take (Suc k) x = take k x @ [x ! k]"
    using k x z by (simp_all add: take_Suc_conv_app_nth)
  have w': "map2 (+) (take (Suc k) z) (take (Suc k) x) = w @ [v]"
    using k x z by (simp add: tz tx w_def v_def)
  have c': "concat (map le_bytes_spec (w @ [v])) = c @ le_bytes_spec v"
    by (simp add: c_def)
  have dz: "drop k z = z ! k # drop (Suc k) z"
    using k z by (simp add: Cons_nth_drop_Suc)
  have zkk: "(w @ drop k z) ! k = z ! k"
    using lw by (simp add: nth_append dz)
  have z': "(w @ drop k z)[k := v] = (w @ [v]) @ drop (Suc k) z"
    using lw by (simp add: list_update_append dz)
  have z'k: "((w @ [v]) @ drop (Suc k) z) ! k = v"
    using lw by (simp add: nth_append)
  have lsk: "4 * k + 4 \<le> length (c @ drop (4 * k) seq)"
    using k seq lc by simp
  have s': "s20_rev_littleendian (c @ drop (4 * k) seq) (4 * k) v =
      (c @ le_bytes_spec v) @ drop (4 * Suc k) seq"
    using lc by (simp add: s20_rev_littleendian_spec [OF lsk] add.commute)
  have "fold (s20_hash_feed x) [0..<Suc k] (z, seq) =
      s20_hash_feed x k (w @ drop k z, c @ drop (4 * k) seq)"
    using Suc.IH k by (simp add: w_def c_def)
  also have "\<dots> = ((w @ [v]) @ drop (Suc k) z, (c @ le_bytes_spec v) @ drop (4 * Suc k) seq)"
    by (simp only: s20_hash_feed_def Let_def prod.case zkk v_def [symmetric] z'k z' s')
  finally show ?case
    by (simp only: w' c')
qed

lemma length_doubleround_spec [simp]: "length (doubleround_spec x) = length x"
  by (simp add: doubleround_spec_def)

lemma funpow_doubleround_spec:
  "length x = 16 \<Longrightarrow> (s20_doubleround ^^ k) x = (doubleround_spec ^^ k) x \<and>
     length ((doubleround_spec ^^ k) x) = 16"
  by (induction k) (simp_all add: s20_doubleround_spec)

lemma map2_add32_spec: "map2 add32_spec z x = map2 (+) z x"
  by (simp add: add32_spec_eq [abs_def])

lemma s20_hash_eq_core_hash_spec:
  assumes "length seq = 64"
  shows "s20_hash seq = core_hash_spec seq"
proof -
  let ?x = "map (\<lambda>i. le_word_spec (take 4 (drop (4 * i) seq))) [0..<16]"
  let ?z = "(doubleround_spec ^^ 10) ?x"
  have x: "length ?x = 16" by simp
  have z: "(s20_doubleround ^^ 10) ?x = ?z" "length ?z = 16"
    using funpow_doubleround_spec [OF x, of 10] by simp_all
  have "s20_hash seq = snd (fold (s20_hash_feed ?x) [0..<16] (?z, seq))"
    using assms z by (simp only: s20_hash_def Let_def s20_hash_decode_spec)
  also have "\<dots> = concat (map le_bytes_spec (map2 (+) ?z ?x))"
    using s20_hash_feed_fold [OF x z(2) assms, of 16] z(2) assms by simp
  finally show ?thesis
    by (simp only: core_hash_spec_def Let_def map2_add32_spec)
qed

text \<open>
  C5. On a block of 64 bytes \<^verbatim>\<open>s20_hash\<close> leaves the core hash of the description: the
  block is read as sixteen little-endian 32-bit words, the double-round is applied ten
  times to a copy of them, each original word is added modulo \<open>2 ^ 32\<close> to the word the
  rounds produced at the same position, and the sixteen sums are written back as
  little-endian bytes.
\<close>

theorem s20_hash_core:
  assumes "length seq = 64"
  shows "s20_hash seq = core_hash_spec seq"
  using assms by (rule s20_hash_eq_core_hash_spec)

section \<open>Block expansion\<close>

lemma upt_16: "[0..<16] = [0, 1, 2, 3, 4, 5, 6, 7, 8, 9, 10, 11, 12, 13, 14, 15]"
  by (simp add: upt_rec)

lemma upt_4: "[0..<4] = [0, 1, 2, 3]"
  by (simp add: upt_rec)

lemma less_4_cases: "q < 4 \<Longrightarrow> q \<in> {0, 1, 2, 3 :: nat}"
  by (simp only: insert_iff empty_iff) presburger

lemma less_16_cases: "r < 16 \<Longrightarrow> r \<in> {0, 1, 2, 3, 4, 5, 6, 7, 8, 9, 10, 11, 12, 13, 14, 15 :: nat}"
  by (simp only: insert_iff empty_iff) presburger

lemma less_64_split: "i < 64 \<Longrightarrow> \<exists>q r. q < 4 \<and> r < 16 \<and> i = 16 * q + r" for i :: nat
proof (intro exI conjI)
  assume "i < 64"
  then show "i div 16 < 4"
    by (simp add: less_mult_imp_div_less)
  show "i mod 16 < 16"
    by simp
  show "i = 16 * (i div 16) + i mod 16"
    by simp
qed

lemma s20_expand32_layout:
  assumes k: "length k = 32" and n: "length n = 16" and ks: "length ks = 64"
  shows "fold (\<lambda>i ks. ks[4 + i := k ! i, 44 + i := k ! (i + 16), 24 + i := n ! i]) [0..<16]
           (fold (\<lambda>i ks. fold (\<lambda>j ks. ks[i + j := sigma ! (i div 20) ! j]) [0..<4] ks)
              [0, 20, 40, 60] ks) =
         expand32_layout_spec k n" (is "?l = ?r")
proof (rule nth_equalityI)
  show "length ?l = length ?r"
    using k n ks by (simp add: expand32_layout_spec_def upt_16 upt_4)
next
  fix i assume "i < length ?l"
  then have "i < 64"
    using ks by (simp add: upt_16 upt_4)
  then obtain q r where q: "q < 4" and r: "r < 16" and i: "i = 16 * q + r"
    using less_64_split by blast
  from less_4_cases [OF q] less_16_cases [OF r] show "?l ! i = ?r ! i"
    unfolding i using k n ks
    by (elim insertE emptyE)
      (simp_all add: expand32_layout_spec_def sigma_def upt_16 upt_4 nth_append nth_list_update)
qed

text \<open>
  C6. Given a 32-byte key, a 16-byte input field and a 64-byte output buffer,
  \<^verbatim>\<open>s20_expand32\<close> overwrites the buffer with the block laid out as the description
  says and leaves its core hash there: bytes 0-3 are "expa", bytes 4-19 the first
  sixteen key bytes, bytes 20-23 "nd 3", bytes 24-39 the input field, bytes 40-43 "2-by",
  bytes 44-59 the last sixteen key bytes, bytes 60-63 "te k".
\<close>

theorem s20_expand32_block:
  assumes "length k = 32" and "length n = 16" and "length ks = 64"
  shows "s20_expand32 k n ks = s20_hash (expand32_layout_spec k n) \<and>
    length (expand32_layout_spec k n) = 64 \<and>
    take 4 (expand32_layout_spec k n) = map of_char ''expa'' \<and>
    take 16 (drop 4 (expand32_layout_spec k n)) = take 16 k \<and>
    take 4 (drop 20 (expand32_layout_spec k n)) = map of_char ''nd 3'' \<and>
    take 16 (drop 24 (expand32_layout_spec k n)) = n \<and>
    take 4 (drop 40 (expand32_layout_spec k n)) = map of_char ''2-by'' \<and>
    take 16 (drop 44 (expand32_layout_spec k n)) = drop 16 k \<and>
    drop 60 (expand32_layout_spec k n) = map of_char ''te k''"
proof -
  have "s20_expand32 k n ks = s20_hash (expand32_layout_spec k n)"
    by (simp only: s20_expand32_def Let_def s20_expand32_layout [OF assms])
  with assms show ?thesis
    by (simp add: expand32_layout_spec_def)
qed

section \<open>The test vector, evaluated\<close>

lemma funpow_10: "(f ^^ 10) x = f (f (f (f (f (f (f (f (f (f x)))))))))"
  by (simp add: numeral_eq_Suc)

lemma kat_layout:
  "expand32_layout_spec kat_key (kat_nonce @ [0, 0, 0, 0, 0, 0, 0, 0]) =
     [101, 120, 112, 97, 128, 0, 0, 0, 0, 0, 0, 0, 0, 0, 0, 0,
      0, 0, 0, 0, 110, 100, 32, 51, 0, 0, 0, 0, 0, 0, 0, 0,
      0, 0, 0, 0, 0, 0, 0, 0, 50, 45, 98, 121, 0, 0, 0, 0,
      0, 0, 0, 0, 0, 0, 0, 0, 0, 0, 0, 0, 116, 101, 32, 107]"
  by (simp add: expand32_layout_spec_def kat_key_def kat_nonce_def)

lemma kat_decode:
  "s20_hash_decode
     [101, 120, 112, 97, 128, 0, 0, 0, 0, 0, 0, 0, 0, 0, 0, 0,
      0, 0, 0, 0, 110, 100, 32, 51, 0, 0, 0, 0, 0, 0, 0, 0,
      0, 0, 0, 0, 0, 0, 0, 0, 50, 45, 98, 121, 0, 0, 0, 0,
      0, 0, 0, 0, 0, 0, 0, 0, 0, 0, 0, 0, 116, 101, 32, 107] =
     [1634760805, 128, 0, 0, 0, 857760878,
      0, 0, 0, 0, 2036477234, 0,
      0, 0, 0, 1797285236]"
  by (simp add: s20_hash_decode_def s20_littleendian_def upt_16)

lemma kat_round_1:
  "s20_doubleround
     [1634760805, 128, 0, 0, 0, 857760878,
      0, 0, 0, 0, 2036477234, 0,
      0, 0, 0, 1797285236] =
     [2009579003, 3154187341, 1047733325, 388097403, 2478339262, 1832294968,
      1527410330, 3580292488, 1826439902, 460018671, 3774188779, 3134658539,
      4004721450, 1749430107, 2638623715, 214684503]"
  by (simp add: s20_doubleround_def s20_columnround_def s20_rowround_def s20_quarterround_def
      rotl_def Let_def cong: let_weak_cong)

lemma kat_round_2:
  "s20_doubleround
     [2009579003, 3154187341, 1047733325, 388097403, 2478339262, 1832294968,
      1527410330, 3580292488, 1826439902, 460018671, 3774188779, 3134658539,
      4004721450, 1749430107, 2638623715, 214684503] =
     [196843401, 3113018744, 1887630547, 1025319257, 3225495018, 813672196,
      4101763282, 717194044, 3543175044, 197498523, 3095199102, 1809042504,
      1876102253, 3306652111, 863795171, 3508212920]"
  by (simp add: s20_doubleround_def s20_columnround_def s20_rowround_def s20_quarterround_def
      rotl_def Let_def cong: let_weak_cong)

lemma kat_round_3:
  "s20_doubleround
     [196843401, 3113018744, 1887630547, 1025319257, 3225495018, 813672196,
      4101763282, 717194044, 3543175044, 197498523, 3095199102, 1809042504,
      1876102253, 3306652111, 863795171, 3508212920] =
     [2860488009, 2397571210, 2947118859, 1704920725, 935974329, 3909481090,
      616196399, 917970329, 1448778762, 1288446614, 581294189, 4251414130,
      3940637875, 3966173943, 1157498204, 2524602004]"
  by (simp add: s20_doubleround_def s20_columnround_def s20_rowround_def s20_quarterround_def
      rotl_def Let_def cong: let_weak_cong)

lemma kat_round_4:
  "s20_doubleround
     [2860488009, 2397571210, 2947118859, 1704920725, 935974329, 3909481090,
      616196399, 917970329, 1448778762, 1288446614, 581294189, 4251414130,
      3940637875, 3966173943, 1157498204, 2524602004] =
     [2284420428, 4100839728, 4113673782, 1704286447, 1562652089, 2494840135,
      2371784359, 2767734273, 443298461, 84735291, 2553114362, 1917437773,
      2442479300, 3516800227, 2561287961, 409308669]"
  by (simp add: s20_doubleround_def s20_columnround_def s20_rowround_def s20_quarterround_def
      rotl_def Let_def cong: let_weak_cong)

lemma kat_round_5:
  "s20_doubleround
     [2284420428, 4100839728, 4113673782, 1704286447, 1562652089, 2494840135,
      2371784359, 2767734273, 443298461, 84735291, 2553114362, 1917437773,
      2442479300, 3516800227, 2561287961, 409308669] =
     [3893593896, 2917583571, 1718847388, 2020744993, 4084730494, 2418399056,
      3727443544, 2687452057, 2863690890, 2257158403, 4206062045, 3576700904,
      762266723, 2752923765, 3973049787, 4006987665]"
  by (simp add: s20_doubleround_def s20_columnround_def s20_rowround_def s20_quarterround_def
      rotl_def Let_def cong: let_weak_cong)

lemma kat_round_6:
  "s20_doubleround
     [3893593896, 2917583571, 1718847388, 2020744993, 4084730494, 2418399056,
      3727443544, 2687452057, 2863690890, 2257158403, 4206062045, 3576700904,
      762266723, 2752923765, 3973049787, 4006987665] =
     [2342612042, 3825683868, 3018051024, 434909502, 2043454479, 3365532668,
      2376961668, 3526152199, 4093228756, 1890955276, 3205608917, 277728405,
      1970868320, 1760276140, 351693979, 1803747127]"
  by (simp add: s20_doubleround_def s20_columnround_def s20_rowround_def s20_quarterround_def
      rotl_def Let_def cong: let_weak_cong)

lemma kat_round_7:
  "s20_doubleround
     [2342612042, 3825683868, 3018051024, 434909502, 2043454479, 3365532668,
      2376961668, 3526152199, 4093228756, 1890955276, 3205608917, 277728405,
      1970868320, 1760276140, 351693979, 1803747127] =
     [1352089403, 2266682166, 2912540000, 2224755094, 1669853525, 3509226973,
      1759232068, 2583231332, 1186758253, 3642065142, 3224357220, 2662025626,
      2250282521, 4174064399, 863064032, 1492809994]"
  by (simp add: s20_doubleround_def s20_columnround_def s20_rowround_def s20_quarterround_def
      rotl_def Let_def cong: let_weak_cong)

lemma kat_round_8:
  "s20_doubleround
     [1352089403, 2266682166, 2912540000, 2224755094, 1669853525, 3509226973,
      1759232068, 2583231332, 1186758253, 3642065142, 3224357220, 2662025626,
      2250282521, 4174064399, 863064032, 1492809994] =
     [1036599436, 218629676, 1298433681, 3354257568, 969028853, 2127854698,
      758282830, 1361417005, 1479282901, 2694070336, 2687691416, 4037462197,
      3851024486, 1146166003, 3571367631, 705660278]"
  by (simp add: s20_doubleround_def s20_columnround_def s20_rowround_def s20_quarterround_def
      rotl_def Let_def cong: let_weak_cong)

lemma kat_round_9:
  "s20_doubleround
     [1036599436, 218629676, 1298433681, 3354257568, 969028853, 2127854698,
      758282830, 1361417005, 1479282901, 2694070336, 2687691416, 4037462197,
      3851024486, 1146166003, 3571367631, 705660278] =
     [1884753232, 488093785, 3014305618, 3611264821, 2592858076, 2846051483,
      3388158201, 3352110515, 247622753, 2918487643, 3173695103, 3694439595,
      3488242901, 644439222, 291353443, 1598742891]"
  by (simp add: s20_doubleround_def s20_columnround_def s20_rowround_def s20_quarterround_def
      rotl_def Let_def cong: let_weak_cong)

lemma kat_round_10:
  "s20_doubleround
     [1884753232, 488093785, 3014305618, 3611264821, 2592858076, 2846051483,
      3388158201, 3352110515, 247622753, 2918487643, 3173695103, 3694439595,
      3488242901, 644439222, 291353443, 1598742891] =
     [2082424446, 3819105291, 1207537386, 3886426459, 3780196608, 87823771,
      1601846226, 1147707309, 1435970738, 3340969886, 1792905369, 127569404,
      2200593732, 1184639719, 1303344664, 2894171146]"
  by (simp add: s20_doubleround_def s20_columnround_def s20_rowround_def s20_quarterround_def
      rotl_def Let_def cong: let_weak_cong)

lemma kat_rounds:
  "(s20_doubleround ^^ 10)
     [1634760805, 128, 0, 0, 0, 857760878,
      0, 0, 0, 0, 2036477234, 0,
      0, 0, 0, 1797285236] =
     [2082424446, 3819105291, 1207537386, 3886426459, 3780196608, 87823771,
      1601846226, 1147707309, 1435970738, 3340969886, 1792905369, 127569404,
      2200593732, 1184639719, 1303344664, 2894171146]"
  by (simp only: funpow_10 kat_round_1 kat_round_2 kat_round_3 kat_round_4 kat_round_5 kat_round_6 kat_round_7 kat_round_8 kat_round_9 kat_round_10)

lemma kat_hash:
  "s20_hash
     [101, 120, 112, 97, 128, 0, 0, 0, 0, 0, 0, 0, 0, 0, 0, 0,
      0, 0, 0, 0, 110, 100, 32, 51, 0, 0, 0, 0, 0, 0, 0, 0,
      0, 0, 0, 0, 0, 0, 0, 0, 50, 45, 98, 121, 0, 0, 0, 0,
      0, 0, 0, 0, 0, 0, 0, 0, 0, 0, 0, 0, 116, 101, 32, 107] =
     kat_keystream"
proof -
  let ?x = "[1634760805, 128, 0, 0, 0, 857760878,
            0, 0, 0, 0, 2036477234, 0,
            0, 0, 0, 1797285236] :: u32 list"
  let ?z = "[2082424446, 3819105291, 1207537386, 3886426459, 3780196608, 87823771,
            1601846226, 1147707309, 1435970738, 3340969886, 1792905369, 127569404,
            2200593732, 1184639719, 1303344664, 2894171146] :: u32 list"
  let ?seq = "[101, 120, 112, 97, 128, 0, 0, 0, 0, 0, 0, 0, 0, 0, 0, 0,
            0, 0, 0, 0, 110, 100, 32, 51, 0, 0, 0, 0, 0, 0, 0, 0,
            0, 0, 0, 0, 0, 0, 0, 0, 50, 45, 98, 121, 0, 0, 0, 0,
            0, 0, 0, 0, 0, 0, 0, 0, 0, 0, 0, 0, 116, 101, 32, 107] :: u8 list"
  have "snd (fold (s20_hash_feed ?x) [0..<16] (?z, ?seq)) =
      concat (map le_bytes_spec (map2 (+) ?z ?x))"
    by (subst s20_hash_feed_fold) simp_all
  also have "\<dots> = kat_keystream"
    by (simp add: le_bytes_spec4 kat_keystream_def)
  finally show ?thesis
    by (simp only: s20_hash_def Let_def kat_decode kat_rounds)
qed

section \<open>The stream driver in closed form\<close>

lemma length_core_hash_spec: "length seq = 64 \<Longrightarrow> length (core_hash_spec seq) = 64"
proof -
  assume "length seq = 64"
  let ?x = "map (\<lambda>i. le_word_spec (take 4 (drop (4 * i) seq))) [0..<16]"
  have "length ?x = 16" by simp
  from funpow_doubleround_spec [OF this, of 10]
  have "length ((doubleround_spec ^^ 10) ?x) = 16" by simp
  then show ?thesis
    by (simp add: core_hash_spec_def Let_def del: map_map)
qed

lemma length_s20_hash: "length seq = 64 \<Longrightarrow> length (s20_hash seq) = 64"
  by (simp add: s20_hash_eq_core_hash_spec length_core_hash_spec)

lemma length_expand32_layout:
  "length k = 32 \<Longrightarrow> length n = 16 \<Longrightarrow> length (expand32_layout_spec k n) = 64"
  by (simp add: expand32_layout_spec_def)

lemma s20_expand32_hash_layout:
  "length k = 32 \<Longrightarrow> length n = 16 \<Longrightarrow> length ks = 64 \<Longrightarrow>
     s20_expand32 k n ks = s20_hash (expand32_layout_spec k n)"
  by (simp only: s20_expand32_def Let_def s20_expand32_layout)

lemma length_counter_field: "length v = 8 \<Longrightarrow> length (counter_field_spec v c) = 16"
  by (simp add: counter_field_spec_def)

text \<open>The word-level index arithmetic of the loop, on natural numbers.\<close>

lemma unat_div_64: "unat (i div 64 :: u32) = unat i div 64"
  by (simp add: unat_div)

lemma word_mod_64_eq_0: "(i mod 64 = 0) = (unat i mod 64 = 0)" for i :: u32
proof -
  have "(i mod 64 = 0) = (unat (i mod 64) = 0)"
    by (simp add: unat_eq_0)
  then show ?thesis by (simp add: unat_mod)
qed

lemma unat_si_plus_mod_64: "unat ((si + i) mod 64 :: u32) = (unat si + unat i) mod 64"
proof -
  have "unat ((si + i) mod 64) = (unat si + unat i) mod 2 ^ 32 mod 64"
    by (simp add: unat_mod unat_word_ariths)
  also have "\<dots> = (unat si + unat i) mod 64"
    by (rule mod_mod_cancel) simp
  finally show ?thesis .
qed

lemma unat_succ: "i < buflen \<Longrightarrow> unat (i + 1) = unat i + 1" for i buflen :: u32
proof -
  assume "i < buflen"
  then have "unat i < unat buflen"
    by (simp add: word_less_nat_alt)
  moreover have "unat buflen < 2 ^ 32"
    using unsigned_less [of buflen] by simp
  ultimately show ?thesis
    by (simp add: unat_word_ariths)
qed


lemma counter_field_parts:
  assumes "length v = 8"
  shows "length (counter_field_spec v c) = 16"
    and "take 8 (counter_field_spec v c) = v"
    and "drop 12 (counter_field_spec v c) = [0, 0, 0, 0]"
  using assms by (simp_all add: counter_field_spec_def)

lemma s20_rev_littleendian_counter:
  assumes v: "length v = 8" and n: "length n = 16" "take 8 n = v" "drop 12 n = [0, 0, 0, 0]"
  shows "s20_rev_littleendian n 8 (i div 64) = counter_field_spec v (unat i div 64)"
proof -
  have "word_of_nat (unat i div 64) = (i div 64 :: u32)"
    using unat_div_64 [of i, symmetric] by simp
  moreover have "s20_rev_littleendian n 8 (i div 64) =
      take 8 n @ le_bytes_spec (i div 64) @ drop (8 + 4) n"
    using n by (intro s20_rev_littleendian_spec) simp
  ultimately show ?thesis
    using n by (simp add: counter_field_spec_def)
qed

lemma s20_crypt_body_spec:
  assumes k: "length (key m) = 32" and v: "length v = 8"
    and n: "length n = 16" "take 8 n = v" "drop 12 n = [0, 0, 0, 0]"
    and ks: "length ks = 64"
    and inv: "unat i mod 64 \<noteq> 0 \<Longrightarrow>
       ks = s20_hash (expand32_layout_spec (key m) (counter_field_spec v (unat i div 64)))"
  shows "s20_crypt_body si i (m, n, ks) =
     (m\<lparr>buf := (buf m)[unat i := buf m ! unat i XOR keystream_byte_spec (key m) v si (unat i)]\<rparr>,
      (if unat i mod 64 = 0 then counter_field_spec v (unat i div 64) else n),
      s20_hash (expand32_layout_spec (key m) (counter_field_spec v (unat i div 64))))"
proof (cases "unat i mod 64 = 0")
  case True
  then have "i mod 64 = 0"
    by (simp add: word_mod_64_eq_0)
  moreover have "s20_expand32 (key m) (counter_field_spec v (unat i div 64)) ks =
      s20_hash (expand32_layout_spec (key m) (counter_field_spec v (unat i div 64)))"
    using k v ks by (simp add: s20_expand32_hash_layout counter_field_parts)
  ultimately show ?thesis
    using True
    by (simp add: s20_crypt_body_def Let_def s20_rev_littleendian_counter [OF v n]
        keystream_byte_spec_def unat_si_plus_mod_64)
next
  case False
  then have "i mod 64 \<noteq> 0"
    by (simp add: word_mod_64_eq_0)
  with False inv show ?thesis
    by (simp add: s20_crypt_body_def Let_def keystream_byte_spec_def unat_si_plus_mod_64)
qed

lemma s20_crypt_loop_spec:
  assumes v: "length v = 8"
  shows "unat buflen - unat i = d \<Longrightarrow> unat i \<le> unat buflen \<Longrightarrow>
    unat buflen \<le> length (buf m) \<Longrightarrow> length (key m) = 32 \<Longrightarrow>
    length n = 16 \<Longrightarrow> take 8 n = v \<Longrightarrow> drop 12 n = [0, 0, 0, 0] \<Longrightarrow> length ks = 64 \<Longrightarrow>
    (unat i mod 64 \<noteq> 0 \<Longrightarrow>
       ks = s20_hash (expand32_layout_spec (key m) (counter_field_spec v (unat i div 64)))) \<Longrightarrow>
    fst (s20_crypt_loop si buflen i (m, n, ks)) =
      m\<lparr>buf := map (\<lambda>j. if unat i \<le> j \<and> j < unat buflen
                          then buf m ! j XOR keystream_byte_spec (key m) v si j
                          else buf m ! j) [0..<length (buf m)]\<rparr>"
proof (induction d arbitrary: i m n ks)
  case 0
  from "0.prems"(1,2) have eq: "unat i = unat buflen"
    by simp
  then have "\<not> i < buflen"
    by (simp add: word_less_nat_alt)
  moreover have "map (\<lambda>j. if unat i \<le> j \<and> j < unat buflen
                          then buf m ! j XOR keystream_byte_spec (key m) v si j
                          else buf m ! j) [0..<length (buf m)] = buf m"
  proof -
    have "\<not> (unat i \<le> j \<and> j < unat buflen)" for j
      using eq by linarith
    then have "map (\<lambda>j. if unat i \<le> j \<and> j < unat buflen
                          then buf m ! j XOR keystream_byte_spec (key m) v si j
                          else buf m ! j) [0..<length (buf m)] =
               map (\<lambda>j. buf m ! j) [0..<length (buf m)]"
      by (simp only: if_False)
    then show ?thesis
      by (simp only: map_nth)
  qed
  ultimately show ?case
    by (simp add: s20_crypt_loop.simps [of si buflen i])
next
  case (Suc d)
  let ?blk = "s20_hash (expand32_layout_spec (key m) (counter_field_spec v (unat i div 64)))"
  let ?b' = "(buf m)[unat i := buf m ! unat i XOR keystream_byte_spec (key m) v si (unat i)]"
  let ?m' = "m\<lparr>buf := ?b'\<rparr>"
  let ?n' = "if unat i mod 64 = 0 then counter_field_spec v (unat i div 64) else n"
  note d = Suc.prems(1) and le = Suc.prems(2) and bl = Suc.prems(3) and kl = Suc.prems(4)
    and nl = Suc.prems(5) and tn = Suc.prems(6) and dn = Suc.prems(7) and ksl = Suc.prems(8)
    and inv = Suc.prems(9)
  from d have ib: "unat i < unat buflen"
    by simp
  then have lt: "i < buflen"
    by (simp add: word_less_nat_alt)
  then have i1: "unat (i + 1) = unat i + 1"
    by (rule unat_succ)
  from ib bl have ilen: "unat i < length (buf m)"
    by simp
  have body: "s20_crypt_body si i (m, n, ks) = (?m', ?n', ?blk)"
    using kl v nl tn dn ksl inv by (rule s20_crypt_body_spec)
  have lcf: "length (counter_field_spec v (unat i div 64)) = 16"
    using v by (rule counter_field_parts(1))
  have lblk: "length ?blk = 64"
    using kl lcf by (intro length_s20_hash length_expand32_layout)
  have m': "buf ?m' = ?b'" "key ?m' = key m" "\<And>b. ?m'\<lparr>buf := b\<rparr> = m\<lparr>buf := b\<rparr>"
    by simp_all
  have "length ?n' = 16 \<and> take 8 ?n' = v \<and> drop 12 ?n' = [0, 0, 0, 0]"
  proof (cases "unat i mod 64 = 0")
    case True
    show ?thesis
      unfolding if_P [OF True] using counter_field_parts [OF v] by blast
  next
    case False
    show ?thesis
      unfolding if_not_P [OF False] using nl tn dn by blast
  qed
  then have n': "length ?n' = 16" "take 8 ?n' = v" "drop 12 ?n' = [0, 0, 0, 0]"
    by blast+
  have dv: "(unat i + 1) mod 64 \<noteq> 0 \<Longrightarrow> (unat i + 1) div 64 = unat i div 64"
    by (simp add: div_Suc)
  have inv': "?blk = s20_hash (expand32_layout_spec (key ?m')
      (counter_field_spec v (unat (i + 1) div 64)))" if "unat (i + 1) mod 64 \<noteq> 0"
  proof -
    from that have "(unat i + 1) mod 64 \<noteq> 0"
      unfolding i1 .
    from dv [OF this] show ?thesis
      by (simp only: i1 m'(2))
  qed
  have "fst (s20_crypt_loop si buflen i (m, n, ks)) =
      fst (s20_crypt_loop si buflen (i + 1) (?m', ?n', ?blk))"
    using lt body by (simp only: s20_crypt_loop.simps [of si buflen i] if_True)
  also have "\<dots> = ?m'\<lparr>buf := map (\<lambda>j. if unat (i + 1) \<le> j \<and> j < unat buflen
                          then buf ?m' ! j XOR keystream_byte_spec (key ?m') v si j
                          else buf ?m' ! j) [0..<length (buf ?m')]\<rparr>"
  proof (rule Suc.IH [OF _ _ _ _ n' lblk inv'])
    show "unat buflen - unat (i + 1) = d"
      using d i1 by simp
    show "unat (i + 1) \<le> unat buflen"
      using ib i1 by simp
    show "unat buflen \<le> length (buf ?m')"
      using bl by simp
    show "length (key ?m') = 32"
      using kl by simp
  qed
  also have "\<dots> = m\<lparr>buf := map (\<lambda>j. if unat i \<le> j \<and> j < unat buflen
                          then buf m ! j XOR keystream_byte_spec (key m) v si j
                          else buf m ! j) [0..<length (buf m)]\<rparr>"
  proof -
    have "(if unat i + 1 \<le> j \<and> j < unat buflen
           then ?b' ! j XOR keystream_byte_spec (key m) v si j
           else ?b' ! j) =
          (if unat i \<le> j \<and> j < unat buflen
           then buf m ! j XOR keystream_byte_spec (key m) v si j
           else buf m ! j)" if "j < length (buf m)" for j
      using that ilen ib by (cases "j = unat i") (simp_all add: nth_list_update)
    then have "map (\<lambda>j. if unat i + 1 \<le> j \<and> j < unat buflen
           then ?b' ! j XOR keystream_byte_spec (key m) v si j
           else ?b' ! j) [0..<length (buf m)] =
        map (\<lambda>j. if unat i \<le> j \<and> j < unat buflen
           then buf m ! j XOR keystream_byte_spec (key m) v si j
           else buf m ! j) [0..<length (buf m)]"
      by (intro map_cong [OF refl]) simp
    then show ?thesis
      by (simp only: i1 m' length_list_update)
  qed
  finally show ?case .
qed

lemma copy_loop_prefix:
  "c \<le> length v \<Longrightarrow> c \<le> length xs \<Longrightarrow>
     fold (\<lambda>i n. n[i := v ! i]) [0..<c] xs = take c v @ drop c xs"
proof (induction c)
  case 0
  show ?case by simp
next
  case (Suc c)
  then have c: "c < length v" "c < length xs" by simp_all
  have "fold (\<lambda>i n. n[i := v ! i]) [0..<Suc c] xs = (take c v @ drop c xs)[c := v ! c]"
    using Suc by simp
  also have "\<dots> = take c v @ (drop c xs)[0 := v ! c]"
    using c by (simp add: list_update_append)
  also have "(drop c xs)[0 := v ! c] = v ! c # drop (Suc c) xs"
    using c by (simp add: Cons_nth_drop_Suc [symmetric])
  finally show ?case
    using c by (simp add: take_Suc_conv_app_nth)
qed

lemma nonce_copy:
  "length v = 8 \<Longrightarrow> fold (\<lambda>i n. n[i := v ! i]) [0..<8] (replicate 16 0) = v @ replicate 8 0"
  by (simp add: copy_loop_prefix)

lemma replicate_4_zero: "replicate 4 0 = [0, 0, 0, 0 :: u8]"
  by (simp add: numeral_eq_Suc)

lemma s20_crypt_spec:
  assumes "length (key m) = 32" and "length (nonce m) = 8" and "unat buflen \<le> length (buf m)"
  shows "s20_crypt m si buflen = crypt_spec m si buflen"
proof -
  let ?n = "nonce m @ replicate 8 0"
  have "s20_crypt m si buflen = fst (s20_crypt_loop si buflen 0 (m, ?n, replicate 64 0))"
    using assms by (simp add: s20_crypt_def Let_def nonce_copy)
  also have "\<dots> = crypt_spec m si buflen"
    unfolding crypt_spec_def
    using assms
    by (subst s20_crypt_loop_spec [where v = "nonce m" and d = "unat buflen"])
      (simp_all add: replicate_4_zero)
  finally show ?thesis .
qed

section \<open>The known-answer test\<close>

lemma kat_block:
  "s20_hash (expand32_layout_spec kat_key (kat_nonce @ [0, 0, 0, 0, 0, 0, 0, 0])) = kat_keystream"
  by (simp only: kat_layout kat_hash)

lemma kat_lengths:
  "length kat_key = 32" "length kat_nonce = 8" "length (kat_nonce @ [0, 0, 0, 0, 0, 0, 0, 0]) = 16"
  "length kat_keystream = 64"
  by (simp_all add: kat_key_def kat_nonce_def kat_keystream_def)

lemma le_bytes_spec_0: "le_bytes_spec 0 = [0, 0, 0, 0]"
  by (simp add: le_bytes_spec4)

lemma kat_counter_field_0: "counter_field_spec kat_nonce 0 = kat_nonce @ [0, 0, 0, 0, 0, 0, 0, 0]"
  by (simp add: counter_field_spec_def le_bytes_spec_0)

lemma kat_keystream_byte:
  "i < 64 \<Longrightarrow> keystream_byte_spec kat_key kat_nonce 0 i = kat_keystream ! i"
  by (simp add: keystream_byte_spec_def kat_counter_field_0 kat_block)

theorem s20_hash_core_witness:
  "length (expand32_layout_spec kat_key (kat_nonce @ [0, 0, 0, 0, 0, 0, 0, 0])) = 64 \<and>
   core_hash_spec (expand32_layout_spec kat_key (kat_nonce @ [0, 0, 0, 0, 0, 0, 0, 0])) =
     kat_keystream"
proof -
  have len: "length (expand32_layout_spec kat_key (kat_nonce @ [0, 0, 0, 0, 0, 0, 0, 0])) = 64"
    by (intro length_expand32_layout kat_lengths)
  from s20_hash_core [OF len] kat_block len show ?thesis
    by (simp only:)
qed

theorem s20_expand32_block_witness:
  "length kat_key = 32 \<and> length (kat_nonce @ [0, 0, 0, 0, 0, 0, 0, 0]) = 16 \<and>
   length (replicate 64 (0 :: u8)) = 64 \<and>
   s20_expand32 kat_key (kat_nonce @ [0, 0, 0, 0, 0, 0, 0, 0]) (replicate 64 0) =
     s20_hash (expand32_layout_spec kat_key (kat_nonce @ [0, 0, 0, 0, 0, 0, 0, 0])) \<and>
   take 4 (expand32_layout_spec kat_key (kat_nonce @ [0, 0, 0, 0, 0, 0, 0, 0])) =
     [0x65, 0x78, 0x70, 0x61]"
proof -
  have l: "length (replicate 64 (0 :: u8)) = 64"
    by simp
  from s20_expand32_block [OF kat_lengths(1) kat_lengths(3) l] kat_lengths l show ?thesis
    by simp
qed

text \<open>
  C7. For the key \<open>0x80\<close> followed by 31 zero bytes, the all-zero nonce and block
  counter 0, the block that \<^verbatim>\<open>s20_expand32\<close> (block expansion and core hash) produces
  is the 64 bytes of the published Salsa20/20 test vector; the stream driver run with
  stream index 0 over 64 zero bytes leaves the same 64 bytes in the buffer.
\<close>

theorem salsa20_known_answer:
  "s20_expand32 kat_key (kat_nonce @ [0, 0, 0, 0] @ [0, 0, 0, 0]) (replicate 64 0) = kat_keystream \<and>
   buf (s20_crypt \<lparr>key = kat_key, nonce = kat_nonce, buf = replicate 64 0\<rparr> 0 64) = kat_keystream"
proof -
  let ?m = "\<lparr>key = kat_key, nonce = kat_nonce, buf = replicate 64 0\<rparr>"
  have "s20_expand32 kat_key (kat_nonce @ [0, 0, 0, 0, 0, 0, 0, 0]) (replicate 64 0) = kat_keystream"
    using kat_lengths by (simp add: s20_expand32_hash_layout kat_block)
  moreover have "buf (s20_crypt ?m 0 64) = kat_keystream"
  proof -
    have "s20_crypt ?m 0 64 = crypt_spec ?m 0 64"
      using kat_lengths by (intro s20_crypt_spec) simp_all
    moreover have "buf (crypt_spec ?m 0 64) = kat_keystream"
      using kat_lengths(4)
      by (intro nth_equalityI) (simp_all add: crypt_spec_def kat_keystream_byte)
    ultimately show ?thesis by simp
  qed
  ultimately show ?thesis by simp
qed

section \<open>The stream driver on an empty range\<close>

text \<open>
  C8. With \<^verbatim>\<open>buflen = 0\<close> the loop body never runs: \<^verbatim>\<open>s20_crypt\<close> returns, and the key,
  the nonce and the buffer are what they were, whatever their contents and lengths.
\<close>

theorem s20_crypt_zero_length: "s20_crypt m si 0 = m"
  by (simp add: s20_crypt_def Let_def s20_crypt_loop.simps)

section \<open>The stream driver: positions, involution, frame\<close>

lemma crypt_spec_simps:
  "key (crypt_spec m si buflen) = key m"
  "nonce (crypt_spec m si buflen) = nonce m"
  "length (buf (crypt_spec m si buflen)) = length (buf m)"
  by (simp_all add: crypt_spec_def)

lemma crypt_spec_nth:
  "j < length (buf m) \<Longrightarrow>
     buf (crypt_spec m si buflen) ! j =
       (if j < unat buflen then buf m ! j XOR keystream_byte_spec (key m) (nonce m) si j
        else buf m ! j)"
  by (simp add: crypt_spec_def)

lemma xor_twice: "(a XOR k) XOR k = a" for a k :: u8
  by (simp add: xor.assoc)

lemma xor_outer_cancel: "a XOR (k XOR a) = k" "(a XOR k) XOR a = k" for a k :: u8
proof -
  have "a XOR (k XOR a) = k XOR (a XOR a)"
    by (rule xor.left_commute)
  then show "a XOR (k XOR a) = k"
    by simp
  then show "(a XOR k) XOR a = k"
    by (simp only: xor.assoc)
qed

lemma crypt_spec_involution: "crypt_spec (crypt_spec m si buflen) si buflen = m"
proof -
  have "buf (crypt_spec (crypt_spec m si buflen) si buflen) = buf m"
    by (rule nth_equalityI) (simp_all add: crypt_spec_simps crypt_spec_nth xor_twice)
  moreover have "crypt_spec (crypt_spec m si buflen) si buflen =
      m\<lparr>buf := buf (crypt_spec (crypt_spec m si buflen) si buflen)\<rparr>"
    by (simp add: crypt_spec_def)
  ultimately show ?thesis by simp
qed

lemma keystream_byte_expand32:
  assumes "length k = 32" and "length v = 8" and "length ks = 64"
  shows "keystream_byte_spec k v si i =
     s20_expand32 k (v @ le_bytes_spec (word_of_nat (i div 64)) @ [0, 0, 0, 0]) ks !
       ((unat si + i) mod 64)"
  using assms
  by (simp add: keystream_byte_spec_def counter_field_spec_def s20_expand32_hash_layout)

text \<open>
  C1. For a 32-byte key, an 8-byte nonce and a buffer of at least \<open>buflen\<close> bytes, the
  byte that \<^verbatim>\<open>s20_crypt\<close> leaves at each position \<open>i < buflen\<close> is the old byte xored
  with byte \<open>(si + i) mod 64\<close> of the block that \<^verbatim>\<open>s20_expand32\<close> produces for the key
  and the input field made of the nonce, the counter \<open>i div 64\<close> in four little-endian
  bytes, and four zero bytes: the block regenerated at the last index divisible by 64.
  The counter comes from the position \<open>i\<close> alone, not from \<open>si\<close>.
\<close>

theorem s20_crypt_positions:
  assumes "length (key m) = 32" and "length (nonce m) = 8" and "unat buflen \<le> length (buf m)"
    and "length ks = 64" and "i < unat buflen"
  shows "buf (s20_crypt m si buflen) ! i =
     buf m ! i XOR
     s20_expand32 (key m) (nonce m @ le_bytes_spec (word_of_nat (i div 64)) @ [0, 0, 0, 0]) ks !
       ((unat si + i) mod 64)"
proof -
  from assms(3,5) have "i < length (buf m)"
    by simp
  then have "buf (crypt_spec m si buflen) ! i =
      buf m ! i XOR keystream_byte_spec (key m) (nonce m) si i"
    using assms(5) by (simp add: crypt_spec_nth)
  then show ?thesis
    by (simp only: s20_crypt_spec [OF assms(1-3)] keystream_byte_expand32 [OF assms(1,2,4)])
qed

text \<open>
  C2. For a 32-byte key, an 8-byte nonce and a buffer of at least \<open>buflen\<close> bytes,
  running \<^verbatim>\<open>s20_crypt\<close> twice with the same stream index and length gives back the
  memory the first call started from.
\<close>

theorem s20_crypt_involution:
  assumes "length (key m) = 32" and "length (nonce m) = 8" and "unat buflen \<le> length (buf m)"
  shows "s20_crypt (s20_crypt m si buflen) si buflen = m"
proof -
  have "s20_crypt (crypt_spec m si buflen) si buflen = crypt_spec (crypt_spec m si buflen) si buflen"
    using assms by (intro s20_crypt_spec) (simp_all add: crypt_spec_simps)
  then show ?thesis
    by (simp only: s20_crypt_spec [OF assms] crypt_spec_involution)
qed

lemma crypt_spec_keystream:
  assumes "unat buflen \<le> length (buf m)"
  shows "take (unat buflen) (map2 (XOR) (buf (crypt_spec m si buflen)) (buf m)) =
     map (keystream_byte_spec (key m) (nonce m) si) [0..<unat buflen]"
  using assms
  by (intro nth_equalityI) (simp_all add: crypt_spec_simps crypt_spec_nth xor_outer_cancel)

text \<open>
  C9. A call of \<^verbatim>\<open>s20_crypt\<close> returns the key and the nonce as they were, keeps the
  length of the buffer and its bytes from position \<open>buflen\<close> on, and the byte it xors
  into position \<open>j < buflen\<close> is a function of the key, the nonce, \<open>si\<close> and \<open>j\<close> alone:
  the xor of output and input over the first \<open>buflen\<close> positions is the list of
  \<open>keystream_byte_spec\<close> at these positions, and a second call with the same key, nonce
  and \<open>si\<close> on any other buffer, of any other length and with any other \<open>buflen\<close>, xors
  the same bytes into the positions the two calls have in common.
\<close>

theorem s20_crypt_frame:
  assumes "length (key m) = 32" and "length (nonce m) = 8" and "unat buflen \<le> length (buf m)"
    and "key m' = key m" and "nonce m' = nonce m" and "unat buflen' \<le> length (buf m')"
  shows "key (s20_crypt m si buflen) = key m \<and>
    nonce (s20_crypt m si buflen) = nonce m \<and>
    length (buf (s20_crypt m si buflen)) = length (buf m) \<and>
    drop (unat buflen) (buf (s20_crypt m si buflen)) = drop (unat buflen) (buf m) \<and>
    take (unat buflen) (map2 (XOR) (buf (s20_crypt m si buflen)) (buf m)) =
      map (keystream_byte_spec (key m) (nonce m) si) [0..<unat buflen] \<and>
    take (min (unat buflen) (unat buflen')) (map2 (XOR) (buf (s20_crypt m' si buflen')) (buf m')) =
      take (min (unat buflen) (unat buflen')) (map2 (XOR) (buf (s20_crypt m si buflen)) (buf m))"
proof -
  have s: "s20_crypt m si buflen = crypt_spec m si buflen"
    by (rule s20_crypt_spec [OF assms(1-3)])
  have s': "s20_crypt m' si buflen' = crypt_spec m' si buflen'"
    using assms by (intro s20_crypt_spec) simp_all
  have d: "drop (unat buflen) (buf (crypt_spec m si buflen)) = drop (unat buflen) (buf m)"
    by (rule nth_equalityI) (simp_all add: crypt_spec_simps crypt_spec_nth)
  have k: "take (unat buflen) (map2 (XOR) (buf (crypt_spec m si buflen)) (buf m)) =
      map (keystream_byte_spec (key m) (nonce m) si) [0..<unat buflen]"
    by (rule crypt_spec_keystream [OF assms(3)])
  have k': "take (unat buflen') (map2 (XOR) (buf (crypt_spec m' si buflen')) (buf m')) =
      map (keystream_byte_spec (key m) (nonce m) si) [0..<unat buflen']"
    using crypt_spec_keystream [OF assms(6), of si] by (simp only: assms(4,5))
  let ?c = "min (unat buflen) (unat buflen')"
  have "take ?c (map2 (XOR) (buf (crypt_spec m' si buflen')) (buf m')) =
      take ?c (take (unat buflen') (map2 (XOR) (buf (crypt_spec m' si buflen')) (buf m')))"
    by simp
  also have "\<dots> = take ?c (map (keystream_byte_spec (key m) (nonce m) si) [0..<unat buflen'])"
    by (simp only: k')
  also have "\<dots> = map (keystream_byte_spec (key m) (nonce m) si) [0..<?c]"
    by (simp add: take_map)
  also have "\<dots> = take ?c (map (keystream_byte_spec (key m) (nonce m) si) [0..<unat buflen])"
    by (simp add: take_map)
  also have "\<dots> = take ?c (take (unat buflen) (map2 (XOR) (buf (crypt_spec m si buflen)) (buf m)))"
    by (simp only: k)
  also have "\<dots> = take ?c (map2 (XOR) (buf (crypt_spec m si buflen)) (buf m))"
    by simp
  finally have x: "take ?c (map2 (XOR) (buf (crypt_spec m' si buflen')) (buf m')) =
      take ?c (map2 (XOR) (buf (crypt_spec m si buflen)) (buf m))" .
  from d k x show ?thesis
    by (simp only: s s' crypt_spec_simps simp_thms)
qed

lemma kat_expand32:
  "s20_expand32 kat_key (kat_nonce @ [0, 0, 0, 0, 0, 0, 0, 0]) (replicate 64 0) = kat_keystream"
  using kat_lengths by (simp add: s20_expand32_hash_layout kat_block)

theorem s20_crypt_positions_witness:
  "length (key \<lparr>key = kat_key, nonce = kat_nonce, buf = [0x48, 0x69]\<rparr>) = 32 \<and>
   length (nonce \<lparr>key = kat_key, nonce = kat_nonce, buf = [0x48, 0x69]\<rparr>) = 8 \<and>
   unat (2 :: u32) \<le> length (buf \<lparr>key = kat_key, nonce = kat_nonce, buf = [0x48, 0x69]\<rparr>) \<and>
   length (replicate 64 (0 :: u8)) = 64 \<and> 1 < unat (2 :: u32) \<and>
   buf (s20_crypt \<lparr>key = kat_key, nonce = kat_nonce, buf = [0x48, 0x69]\<rparr> 0 2) ! 1 = 0xD7"
proof -
  let ?m = "\<lparr>key = kat_key, nonce = kat_nonce, buf = [0x48, 0x69]\<rparr>"
  have h: "length (key ?m) = 32" "length (nonce ?m) = 8" "unat (2 :: u32) \<le> length (buf ?m)"
    "length (replicate 64 (0 :: u8)) = 64" "1 < unat (2 :: u32)"
    by (simp_all add: kat_lengths)
  have "buf (s20_crypt ?m 0 2) ! 1 = 0xD7"
    using s20_crypt_positions [OF h, of 0]
    by (simp add: le_bytes_spec_0 kat_expand32 kat_keystream_def)
  with h show ?thesis
    by (simp only: simp_thms)
qed

theorem s20_crypt_involution_witness:
  "length (key \<lparr>key = kat_key, nonce = kat_nonce, buf = [0x48, 0x69]\<rparr>) = 32 \<and>
   length (nonce \<lparr>key = kat_key, nonce = kat_nonce, buf = [0x48, 0x69]\<rparr>) = 8 \<and>
   unat (2 :: u32) \<le> length (buf \<lparr>key = kat_key, nonce = kat_nonce, buf = [0x48, 0x69]\<rparr>) \<and>
   s20_crypt (s20_crypt \<lparr>key = kat_key, nonce = kat_nonce, buf = [0x48, 0x69]\<rparr> 5 2) 5 2 =
     \<lparr>key = kat_key, nonce = kat_nonce, buf = [0x48, 0x69]\<rparr>"
proof -
  let ?m = "\<lparr>key = kat_key, nonce = kat_nonce, buf = [0x48, 0x69]\<rparr>"
  have h: "length (key ?m) = 32" "length (nonce ?m) = 8" "unat (2 :: u32) \<le> length (buf ?m)"
    by (simp_all add: kat_lengths)
  from s20_crypt_involution [OF h, of 5] h show ?thesis
    by (simp only: simp_thms)
qed

theorem s20_crypt_frame_witness:
  "length (key \<lparr>key = kat_key, nonce = kat_nonce, buf = [0x48, 0x69, 0x21]\<rparr>) = 32 \<and>
   length (nonce \<lparr>key = kat_key, nonce = kat_nonce, buf = [0x48, 0x69, 0x21]\<rparr>) = 8 \<and>
   unat (2 :: u32) \<le> length (buf \<lparr>key = kat_key, nonce = kat_nonce, buf = [0x48, 0x69, 0x21]\<rparr>) \<and>
   unat (3 :: u32) \<le> length (buf \<lparr>key = kat_key, nonce = kat_nonce, buf = [1, 2, 3, 4]\<rparr>) \<and>
   key (s20_crypt \<lparr>key = kat_key, nonce = kat_nonce, buf = [0x48, 0x69, 0x21]\<rparr> 0 2) = kat_key \<and>
   nonce (s20_crypt \<lparr>key = kat_key, nonce = kat_nonce, buf = [0x48, 0x69, 0x21]\<rparr> 0 2) = kat_nonce \<and>
   drop 2 (buf (s20_crypt \<lparr>key = kat_key, nonce = kat_nonce, buf = [0x48, 0x69, 0x21]\<rparr> 0 2)) = [0x21] \<and>
   take 2 (map2 (XOR) (buf (s20_crypt \<lparr>key = kat_key, nonce = kat_nonce, buf = [0x48, 0x69, 0x21]\<rparr> 0 2))
     [0x48, 0x69, 0x21]) = [0xE3, 0xBE] \<and>
   take 2 (map2 (XOR) (buf (s20_crypt \<lparr>key = kat_key, nonce = kat_nonce, buf = [1, 2, 3, 4]\<rparr> 0 3))
     [1, 2, 3, 4]) = [0xE3, 0xBE]"
proof -
  let ?m = "\<lparr>key = kat_key, nonce = kat_nonce, buf = [0x48, 0x69, 0x21]\<rparr>"
  let ?m' = "\<lparr>key = kat_key, nonce = kat_nonce, buf = [1, 2, 3, 4]\<rparr>"
  have h: "length (key ?m) = 32" "length (nonce ?m) = 8" "unat (2 :: u32) \<le> length (buf ?m)"
    "key ?m' = key ?m" "nonce ?m' = nonce ?m" "unat (3 :: u32) \<le> length (buf ?m')"
    by (simp_all add: kat_lengths)
  have "[0..<2] = [0, 1]"
    by (simp add: upt_rec)
  then have ks: "map (keystream_byte_spec kat_key kat_nonce 0) [0..<2] = [0xE3, 0xBE]"
    by (simp add: kat_keystream_byte kat_keystream_def)
  from s20_crypt_frame [OF h, of 0] h ks show ?thesis
    by simp
qed

end
